theory Spec2Isabelle
  imports Main "HOL-Library.AList"
begin

section \<open>The gotopy engine: data model\<close>

text \<open>
  The repository is one Python module, \<^verbatim>\<open>gotopy2/gotopy.py\<close>: a class \<^verbatim>\<open>Runtime\<close>
  that walks a program (a dict from line numbers to callables) and the function
  \<^verbatim>\<open>run_program\<close>. The embedding below follows that module method by method.

  Python values are untyped; the stores of the tests hold integers, strings and booleans.
\<close>

datatype val = NoneV | BoolV bool | IntV int | StrV string

text \<open>
  A store is a Python dict from strings to values, kept as the list of its items.
  Dicts are objects: two engines may hold the same dict. A heap maps the address of
  each dict to its contents; \<open>fresh\<close> is the next unused address (for \<^verbatim>\<open>{}\<close> in the
  constructor).
\<close>

type_synonym store = "(string \<times> val) list"

type_synonym addr = nat

record heap =
  cells :: "addr \<Rightarrow> store"
  fresh :: addr

text \<open>
  A step is a callable \<^verbatim>\<open>stmt(globals, runtime)\<close>. What a step can do to the engine
  through its handle is call one of the five public methods; what it can do to the shared
  state is read it and write a key. A step is therefore a tree: it stops, performs one
  operation and goes on, or reads the store and goes on according to what it read.
  \<open>RunFile f g\<close> is \<^verbatim>\<open>r.run_file(f, g)\<close>, with \<open>g\<close> the address of the dict passed
  (or \<open>None\<close>).
\<close>

datatype op =
    Goto int
  | Gosub int
  | Return
  | Halt
  | Put string val
  | RunFile string "addr option"

datatype step = Stop | Act op step | Look "store \<Rightarrow> step"

text \<open>A program is a dict from line numbers to steps, kept as the list of its items.\<close>

type_synonym program = "(int \<times> step) list"

text \<open>
  The class \<^verbatim>\<open>Runtime\<close>. The field \<^verbatim>\<open>parent\<close> is assigned in the constructor and
  read nowhere in the module; it is left out. The field \<open>visited\<close> is not in the source:
  it records, in order, the lines whose step the run loop has called, so that statements
  about the order of execution can be made.
\<close>

record runtime =
  program :: program
  lines :: "int list"
  line_idx :: nat
  stack :: "int option list"
  globals :: addr
  goto_line :: "int option"
  returning :: bool
  halted :: bool
  visited :: "int list"

text \<open>
  Every \<^verbatim>\<open>raise\<close> of the module is a value of \<open>error\<close>; \<open>NotInList\<close> is the
  \<^verbatim>\<open>ValueError\<close> of \<^verbatim>\<open>list.index\<close> and \<open>KeyError\<close> that of \<^verbatim>\<open>self.program[line]\<close>.
  An outcome carries the state as it is when the operation returns or raises.
  \<open>OutOfFuel\<close> stands for a run that has not ended within the given number of steps.
\<close>

datatype error =
    NoSuchLine int
  | ReturnWithoutGosub
  | CouldNotLoadSpec string
  | LoaderIsNone string
  | ModuleRaised string
  | NoProgramDict string
  | NotInList int
  | KeyError int

datatype 's outcome = Done 's | Raised error 's | OutOfFuel

text \<open>
  What \<^verbatim>\<open>importlib\<close> does with a file name is outside the module: no spec, a spec
  without loader, a module whose execution raises, a module without \<^verbatim>\<open>program\<close>, or a
  module that defines \<^verbatim>\<open>program\<close>.
\<close>

datatype loaded = SpecNone | LoaderNone | ExecRaises | NoProgram | Module program

type_synonym loader = "string \<Rightarrow> loaded"

section \<open>The constructor\<close>

text \<open>
  \<^verbatim>\<open>sorted(program)\<close>: the keys of the dict, ascending. The keys of a dict are
  pairwise different; \<open>remdups\<close> keeps that true of any list of items.
\<close>

definition sorted_keys :: "program \<Rightarrow> int list" where
  "sorted_keys prog = sort (remdups (map fst prog))"

definition new_dict :: "heap \<Rightarrow> addr \<times> heap" where
  "new_dict h = (fresh h, h\<lparr>cells := (cells h)(fresh h := []), fresh := Suc (fresh h)\<rparr>)"

definition Runtime_init :: "program \<Rightarrow> addr option \<Rightarrow> heap \<Rightarrow> runtime \<times> heap" where
  "Runtime_init prog globals_dict h =
     (let (g, h') = (case globals_dict of Some a \<Rightarrow> (a, h) | None \<Rightarrow> new_dict h)
      in (\<lparr>program = prog, lines = sorted_keys prog, line_idx = 0, stack = [],
           globals = g, goto_line = None, returning = False, halted = False,
           visited = []\<rparr>, h'))"

section \<open>The control operations\<close>

definition goto :: "int \<Rightarrow> runtime \<Rightarrow> runtime outcome" where
  "goto line rt =
     (if map_of (program rt) line = None then Raised (NoSuchLine line) rt
      else Done (rt\<lparr>goto_line := Some line\<rparr>))"

definition gosub :: "int \<Rightarrow> runtime \<Rightarrow> runtime outcome" where
  "gosub line rt =
     (if map_of (program rt) line = None then Raised (NoSuchLine line) rt
      else
        let next_line =
              (if line_idx rt + 1 < length (lines rt) then Some (lines rt ! (line_idx rt + 1))
               else None)
        in Done (rt\<lparr>stack := stack rt @ [next_line], goto_line := Some line\<rparr>))"

definition return_sub :: "runtime \<Rightarrow> runtime outcome" where
  "return_sub rt =
     (if stack rt = [] then Raised ReturnWithoutGosub rt
      else
        let ret = last (stack rt);
            rt1 = rt\<lparr>stack := butlast (stack rt)\<rparr>;
            rt2 = (case ret of None \<Rightarrow> rt1\<lparr>halted := True\<rparr>
                   | Some l \<Rightarrow> rt1\<lparr>goto_line := Some l\<rparr>)
        in Done (rt2\<lparr>returning := True\<rparr>))"

definition halt :: "runtime \<Rightarrow> runtime" where
  "halt rt = rt\<lparr>halted := True\<rparr>"

section \<open>Nested invocation\<close>

text \<open>
  \<^verbatim>\<open>globals_dict or self.globals\<close>: Python's \<^verbatim>\<open>or\<close> yields its right operand when
  the left one is falsy, and both \<^verbatim>\<open>None\<close> and the empty dict are falsy.
\<close>

definition or_globals :: "addr option \<Rightarrow> addr \<Rightarrow> heap \<Rightarrow> addr" where
  "or_globals globals_dict own h =
     (case globals_dict of
        None \<Rightarrow> own
      | Some a \<Rightarrow> if cells h a = [] then own else a)"

definition load_program :: "loader \<Rightarrow> string \<Rightarrow> error + program" where
  "load_program ld filename =
     (case ld filename of
        SpecNone \<Rightarrow> Inl (CouldNotLoadSpec filename)
      | LoaderNone \<Rightarrow> Inl (LoaderIsNone filename)
      | ExecRaises \<Rightarrow> Inl (ModuleRaised filename)
      | NoProgram \<Rightarrow> Inl (NoProgramDict filename)
      | Module prog \<Rightarrow> Inr prog)"

text \<open>
  \<open>sub_run\<close> is \<^verbatim>\<open>sub_runtime.run()\<close>: the run of the child engine, which the run loop
  below supplies. The caller's engine object is not touched; only the heap comes back.
\<close>

definition run_file ::
  "(runtime \<times> heap \<Rightarrow> (runtime \<times> heap) outcome) \<Rightarrow> loader \<Rightarrow> string \<Rightarrow> addr option \<Rightarrow>
   runtime \<times> heap \<Rightarrow> (runtime \<times> heap) outcome" where
  "run_file sub_run ld filename globals_dict s =
     (case s of (rt, h) \<Rightarrow>
        (case load_program ld filename of
           Inl e \<Rightarrow> Raised e (rt, h)
         | Inr prog \<Rightarrow>
             (case sub_run (Runtime_init prog (Some (or_globals globals_dict (globals rt) h)) h) of
                Done (sub, h') \<Rightarrow> Done (rt, h')
              | Raised e (sub, h') \<Rightarrow> Raised e (rt, h')
              | OutOfFuel \<Rightarrow> OutOfFuel)))"

section \<open>Executing a step\<close>

definition with_heap :: "heap \<Rightarrow> runtime outcome \<Rightarrow> (runtime \<times> heap) outcome" where
  "with_heap h r =
     (case r of Done rt \<Rightarrow> Done (rt, h) | Raised e rt \<Rightarrow> Raised e (rt, h) | OutOfFuel \<Rightarrow> OutOfFuel)"

definition put :: "string \<Rightarrow> val \<Rightarrow> runtime \<times> heap \<Rightarrow> runtime \<times> heap" where
  "put k v s =
     (case s of (rt, h) \<Rightarrow>
        (rt, h\<lparr>cells := (cells h)(globals rt := AList.update k v (cells h (globals rt)))\<rparr>))"

definition exec_op ::
  "(runtime \<times> heap \<Rightarrow> (runtime \<times> heap) outcome) \<Rightarrow> loader \<Rightarrow> op \<Rightarrow>
   runtime \<times> heap \<Rightarrow> (runtime \<times> heap) outcome" where
  "exec_op sub_run ld c s =
     (case c of
        Goto l \<Rightarrow> with_heap (snd s) (goto l (fst s))
      | Gosub l \<Rightarrow> with_heap (snd s) (gosub l (fst s))
      | Return \<Rightarrow> with_heap (snd s) (return_sub (fst s))
      | Halt \<Rightarrow> Done (halt (fst s), snd s)
      | Put k v \<Rightarrow> Done (put k v s)
      | RunFile f g \<Rightarrow> run_file sub_run ld f g s)"

primrec exec_step ::
  "(runtime \<times> heap \<Rightarrow> (runtime \<times> heap) outcome) \<Rightarrow> loader \<Rightarrow> step \<Rightarrow>
   runtime \<times> heap \<Rightarrow> (runtime \<times> heap) outcome" where
  "exec_step sub_run ld Stop s = Done s"
| "exec_step sub_run ld (Act c k) s =
     (case exec_op sub_run ld c s of
        Done s' \<Rightarrow> exec_step sub_run ld k s'
      | Raised e s' \<Rightarrow> Raised e s'
      | OutOfFuel \<Rightarrow> OutOfFuel)"
| "exec_step sub_run ld (Look f) s = exec_step sub_run ld (f (cells (snd s) (globals (fst s)))) s"

section \<open>The run loop\<close>

text \<open>\<^verbatim>\<open>self.lines.index(x)\<close>: the first position of \<open>x\<close>, or \<^verbatim>\<open>ValueError\<close>.\<close>

fun index_of :: "int list \<Rightarrow> int \<Rightarrow> nat option" where
  "index_of [] x = None"
| "index_of (y # ys) x = (if y = x then Some 0 else map_option Suc (index_of ys x))"

text \<open>What one pass through the body of the \<^verbatim>\<open>while\<close> loop ends in.\<close>

datatype 's flow = Continue 's | Break 's | Fault error 's | Starved

definition jump :: "runtime \<Rightarrow> int \<Rightarrow> runtime flow" where
  "jump rt l =
     (case index_of (lines rt) l of
        None \<Rightarrow> Fault (NotInList l) rt
      | Some i \<Rightarrow> Continue (rt\<lparr>line_idx := i\<rparr>))"

definition advance :: "runtime \<Rightarrow> runtime flow" where
  "advance rt =
     (if line_idx rt + 1 < length (lines rt) then Continue (rt\<lparr>line_idx := line_idx rt + 1\<rparr>)
      else Break rt)"

text \<open>The part of the loop body after the call of the step, lines 99 to 117.\<close>

definition resolve :: "runtime \<Rightarrow> runtime flow" where
  "resolve rt =
     (if halted rt then Break rt
      else if goto_line rt \<noteq> None then jump rt (the (goto_line rt))
      else if returning rt then
        (if halted rt then Break rt
         else if goto_line rt \<noteq> None then jump rt (the (goto_line rt))
         else Break rt)
      else advance rt)"

definition on_heap :: "heap \<Rightarrow> runtime flow \<Rightarrow> (runtime \<times> heap) flow" where
  "on_heap h r =
     (case r of Continue rt \<Rightarrow> Continue (rt, h) | Break rt \<Rightarrow> Break (rt, h)
      | Fault e rt \<Rightarrow> Fault e (rt, h) | Starved \<Rightarrow> Starved)"

text \<open>Lines 93 to 98: reset the signals, fetch the step of the current line, call it.\<close>

definition call_step ::
  "(runtime \<times> heap \<Rightarrow> (runtime \<times> heap) outcome) \<Rightarrow> loader \<Rightarrow>
   runtime \<times> heap \<Rightarrow> (runtime \<times> heap) outcome" where
  "call_step sub_run ld s =
     (case s of (rt, h) \<Rightarrow>
        let line = lines rt ! line_idx rt;
            rt1 = rt\<lparr>goto_line := None, returning := False\<rparr>
        in (case map_of (program rt1) line of
              None \<Rightarrow> Raised (KeyError line) (rt1, h)
            | Some stmt \<Rightarrow> exec_step sub_run ld stmt (rt1\<lparr>visited := visited rt1 @ [line]\<rparr>, h)))"

definition loop_body ::
  "(runtime \<times> heap \<Rightarrow> (runtime \<times> heap) outcome) \<Rightarrow> loader \<Rightarrow>
   runtime \<times> heap \<Rightarrow> (runtime \<times> heap) flow" where
  "loop_body sub_run ld s =
     (if halted (fst s) then Break s
      else
        (case call_step sub_run ld s of
           Done (rt2, h2) \<Rightarrow> on_heap h2 (resolve rt2)
         | Raised e s' \<Rightarrow> Fault e s'
         | OutOfFuel \<Rightarrow> Starved))"

text \<open>
  The \<^verbatim>\<open>while\<close> loop may run forever (a \<^verbatim>\<open>goto\<close> to the same line), and a nested
  program may invoke itself without end: the loop takes fuel, one unit for each pass,
  and a nested run gets what is left. \<^verbatim>\<open>run()\<close> sets \<^verbatim>\<open>line_idx\<close> to 0 and enters
  the loop; that is what the child engine of a nested invocation does.
\<close>

fun run_loop :: "nat \<Rightarrow> loader \<Rightarrow> runtime \<times> heap \<Rightarrow> (runtime \<times> heap) outcome" where
  "run_loop 0 ld s = OutOfFuel"
| "run_loop (Suc n) ld s =
     (if line_idx (fst s) < length (lines (fst s)) then
        (case loop_body (\<lambda>c. run_loop n ld ((fst c)\<lparr>line_idx := 0\<rparr>, snd c)) ld s of
           Continue s' \<Rightarrow> run_loop n ld s'
         | Break s' \<Rightarrow> Done s'
         | Fault e s' \<Rightarrow> Raised e s'
         | Starved \<Rightarrow> OutOfFuel)
      else Done s)"

definition run :: "nat \<Rightarrow> loader \<Rightarrow> runtime \<times> heap \<Rightarrow> (runtime \<times> heap) outcome" where
  "run n ld s = run_loop n ld ((fst s)\<lparr>line_idx := 0\<rparr>, snd s)"

text \<open>\<^verbatim>\<open>run_program\<close> builds an engine, runs it and returns its store.\<close>

definition run_program ::
  "nat \<Rightarrow> loader \<Rightarrow> program \<Rightarrow> addr option \<Rightarrow> heap \<Rightarrow> (store \<times> runtime \<times> heap) outcome" where
  "run_program n ld prog globals_dict h =
     (case run n ld (Runtime_init prog globals_dict h) of
        Done (rt, h') \<Rightarrow> Done (cells h' (globals rt), rt, h')
      | Raised e (rt, h') \<Rightarrow> Raised e (cells h' (globals rt), rt, h')
      | OutOfFuel \<Rightarrow> OutOfFuel)"

section \<open>The engine without the second check\<close>

text \<open>
  The loop of lines 88 to 117 with the branch \<^verbatim>\<open>elif self._returning:\<close> (lines 104 to
  111) taken out, to be compared with the loop as it is written.
\<close>

definition resolve_without_branch :: "runtime \<Rightarrow> runtime flow" where
  "resolve_without_branch rt =
     (if halted rt then Break rt
      else if goto_line rt \<noteq> None then jump rt (the (goto_line rt))
      else advance rt)"

definition loop_body_without_branch ::
  "(runtime \<times> heap \<Rightarrow> (runtime \<times> heap) outcome) \<Rightarrow> loader \<Rightarrow>
   runtime \<times> heap \<Rightarrow> (runtime \<times> heap) flow" where
  "loop_body_without_branch sub_run ld s =
     (if halted (fst s) then Break s
      else
        (case call_step sub_run ld s of
           Done (rt2, h2) \<Rightarrow> on_heap h2 (resolve_without_branch rt2)
         | Raised e s' \<Rightarrow> Fault e s'
         | OutOfFuel \<Rightarrow> Starved))"

fun run_loop_without_branch ::
  "nat \<Rightarrow> loader \<Rightarrow> runtime \<times> heap \<Rightarrow> (runtime \<times> heap) outcome" where
  "run_loop_without_branch 0 ld s = OutOfFuel"
| "run_loop_without_branch (Suc n) ld s =
     (if line_idx (fst s) < length (lines (fst s)) then
        (case loop_body_without_branch
                (\<lambda>c. run_loop_without_branch n ld ((fst c)\<lparr>line_idx := 0\<rparr>, snd c)) ld s of
           Continue s' \<Rightarrow> run_loop_without_branch n ld s'
         | Break s' \<Rightarrow> Done s'
         | Fault e s' \<Rightarrow> Raised e s'
         | Starved \<Rightarrow> OutOfFuel)
      else Done s)"

section \<open>Vocabulary for the statements\<close>

text \<open>One step after another: what a callable does that runs \<open>a\<close> and then \<open>b\<close>.\<close>

primrec seq :: "step \<Rightarrow> step \<Rightarrow> step" where
  "seq Stop t = t"
| "seq (Act c k) t = Act c (seq k t)"
| "seq (Look f) t = Look (\<lambda>g. seq (f g) t)"





text \<open>
  A step is jump-free when it calls none of \<^verbatim>\<open>goto\<close>, \<^verbatim>\<open>gosub\<close> and \<^verbatim>\<open>return_\<close>:
  it may write to the store, call \<^verbatim>\<open>run_file\<close> and call \<^verbatim>\<open>halt\<close>.
\<close>

fun jump_op :: "op \<Rightarrow> bool" where
  "jump_op (Goto l) = True"
| "jump_op (Gosub l) = True"
| "jump_op Return = True"
| "jump_op c = False"

primrec jump_free :: "step \<Rightarrow> bool" where
  "jump_free Stop = True"
| "jump_free (Act c k) = (\<not> jump_op c \<and> jump_free k)"
| "jump_free (Look f) = (\<forall>g. jump_free (f g))"


text \<open>
  The facts an engine keeps during a run: the line table is the sorted key list of the
  program, every return address on the stack is the sentinel \<open>None\<close> or a line of the
  program, and so is the pending jump target.
\<close>

definition known_line :: "int list \<Rightarrow> int option \<Rightarrow> bool" where
  "known_line ls a = (case a of None \<Rightarrow> True | Some l \<Rightarrow> l \<in> set ls)"

definition engine_inv :: "runtime \<Rightarrow> bool" where
  "engine_inv rt \<longleftrightarrow>
     lines rt = sorted_keys (program rt)
     \<and> list_all (known_line (lines rt)) (stack rt)
     \<and> known_line (lines rt) (goto_line rt)"


text \<open>
  The signals on which the branch of lines 104 to 111 is entered are: not halted, no
  pending jump target, returning. \<open>signals_ok\<close> says the engine is not in that state.
\<close>

definition signals_ok :: "runtime \<Rightarrow> bool" where
  "signals_ok rt \<longleftrightarrow> \<not> (\<not> halted rt \<and> goto_line rt = None \<and> returning rt)"

text \<open>The two errors of a failed lookup in the line table or in the program.\<close>

fun lookup_error :: "error \<Rightarrow> bool" where
  "lookup_error (NotInList l) = True"
| "lookup_error (KeyError l) = True"
| "lookup_error e = False"

text \<open>What a caller can see of a finished run.\<close>

definition visited_of :: "(runtime \<times> heap) outcome \<Rightarrow> int list option" where
  "visited_of r = (case r of Done (rt, h) \<Rightarrow> Some (visited rt) | _ \<Rightarrow> None)"

definition store_of :: "addr \<Rightarrow> (runtime \<times> heap) outcome \<Rightarrow> store option" where
  "store_of a r = (case r of Done (rt, h) \<Rightarrow> Some (cells h a) | _ \<Rightarrow> None)"


definition halted_of :: "(runtime \<times> heap) outcome \<Rightarrow> bool option" where
  "halted_of r = (case r of Done (rt, h) \<Rightarrow> Some (halted rt) | _ \<Rightarrow> None)"

section \<open>Example programs\<close>

text \<open>A heap with two empty dicts, at addresses 0 and 1.\<close>

definition heap0 :: heap where
  "heap0 = \<lparr>cells = (\<lambda>a. []), fresh = 2\<rparr>"

text \<open>
  With no file on disk, \<^verbatim>\<open>exec_module\<close> raises for every name (importlib builds a spec
  and a loader for a path that ends in \<^verbatim>\<open>.py\<close> whether the file exists or not).
\<close>

definition no_files :: loader where
  "no_files f = ExecRaises"

text \<open>The program of \<^verbatim>\<open>test_gosub_return\<close>, without its writes to the store.\<close>

definition prog_gosub :: program where
  "prog_gosub =
     [(10, Stop), (20, Act (Gosub 50) Stop), (30, Act Halt Stop), (50, Stop),
      (60, Act Return Stop)]"

text \<open>A step that calls \<^verbatim>\<open>halt()\<close> and then \<^verbatim>\<open>goto(30)\<close>.\<close>

definition prog_halt_goto :: program where
  "prog_halt_goto = [(10, Act Halt (Act (Goto 30) Stop)), (20, Stop), (30, Stop)]"

text \<open>
  The programs of \<^verbatim>\<open>test_nested_run_file\<close>, with a parent that passes another dict
  (the one at address 1) and with a parent that passes none.
\<close>

definition prog_parent :: program where
  "prog_parent =
     [(10, Act (RunFile ''subprog.py'' (Some 1)) Stop),
      (20, Act (Put ''done'' (BoolV True)) (Act Halt Stop))]"

definition prog_parent_shared :: program where
  "prog_parent_shared =
     [(10, Act (RunFile ''subprog.py'' None) Stop),
      (20, Act (Put ''done'' (BoolV True)) (Act Halt Stop))]"

definition prog_child :: program where
  "prog_child =
     [(100, Act (Put ''msg'' (StrV ''hello from subprog'')) Stop), (110, Act Halt Stop)]"

definition one_file :: loader where
  "one_file f = (if f = ''subprog.py'' then Module prog_child else ExecRaises)"





text \<open>
  The programs of \<^verbatim>\<open>tests/test_gotopy.py\<close>. A step that computes from the store
  reads it first; a key that is missing or not an integer reads as 0 here.
\<close>

definition int_of :: "store \<Rightarrow> string \<Rightarrow> int" where
  "int_of g k = (case map_of g k of Some (IntV i) \<Rightarrow> i | _ \<Rightarrow> 0)"

definition prog_test_goto :: program where
  "prog_test_goto =
     [(10, Act (Put ''x'' (IntV 1)) Stop),
      (20, Act (Goto 40) Stop),
      (30, Act (Put ''x'' (IntV 999)) Stop),
      (40, Look (\<lambda>g. Act (Put ''x'' (IntV (int_of g ''x'' + 5))) Stop))]"

definition prog_test_gosub_return :: program where
  "prog_test_gosub_return =
     [(10, Act (Put ''x'' (IntV 1)) Stop),
      (20, Act (Gosub 50) Stop),
      (30, Act (Put ''done'' (BoolV True)) (Act Halt Stop)),
      (50, Look (\<lambda>g. Act (Put ''x'' (IntV (int_of g ''x'' * 10))) Stop)),
      (60, Act Return Stop)]"

definition prog_test_nested_gosubs :: program where
  "prog_test_nested_gosubs =
     [(10, Act (Gosub 100) Stop), (20, Act Halt Stop), (100, Act (Gosub 200) Stop),
      (110, Act Return Stop), (200, Act Return Stop)]"

definition prog_test_goto_loop :: program where
  "prog_test_goto_loop =
     [(10, Look (\<lambda>g. Act (Put ''n'' (IntV (int_of g ''n'' + 1))) Stop)),
      (20, Look (\<lambda>g. if int_of g ''n'' < 3 then Act (Goto 10) Stop else Act Halt Stop))]"

definition prog_test_return_without_gosub :: program where
  "prog_test_return_without_gosub = [(10, Act Return Stop)]"

definition prog_test_nested_run_file :: program where
  "prog_test_nested_run_file =
     [(10, Act (RunFile ''subprog.py'' (Some 0)) Stop),
      (20, Act (Put ''done'' (BoolV True)) (Act Halt Stop))]"

definition error_of :: "(runtime \<times> heap) outcome \<Rightarrow> error option" where
  "error_of r = (case r of Raised e s \<Rightarrow> Some e | _ \<Rightarrow> None)"

text \<open>The engine of a program on the dict at address 0, standing at position \<open>i\<close>.\<close>

definition engine_at :: "program \<Rightarrow> nat \<Rightarrow> runtime" where
  "engine_at prog i = (fst (Runtime_init prog (Some 0) heap0))\<lparr>line_idx := i\<rparr>"

section \<open>Facts about the model\<close>

subsection \<open>The line table and the position lookup\<close>

lemma set_sorted_keys: "set (sorted_keys p) = fst ` set p"
  by (simp add: sorted_keys_def)



lemma map_of_None_keys: "map_of p l = None \<longleftrightarrow> l \<notin> set (sorted_keys p)"
  by (simp add: set_sorted_keys map_of_eq_None_iff)

lemma index_of_None: "index_of xs x = None \<longleftrightarrow> x \<notin> set xs"
  by (induction xs) auto

lemma index_of_Some: "index_of xs x = Some i \<Longrightarrow> i < length xs \<and> xs ! i = x"
  by (induction xs arbitrary: i) (auto split: if_splits)


subsection \<open>Steps and the loop\<close>

lemma exec_step_seq:
  "exec_step sub ld (seq a b) s =
     (case exec_step sub ld a s of Done s' \<Rightarrow> exec_step sub ld b s'
      | Raised e s' \<Rightarrow> Raised e s' | OutOfFuel \<Rightarrow> OutOfFuel)"
  by (induction a arbitrary: s) (auto split: outcome.splits)

lemma run_loop_Suc:
  "run_loop (Suc n) ld s =
     (if line_idx (fst s) < length (lines (fst s)) then
        (case loop_body (run n ld) ld s of
           Continue s' \<Rightarrow> run_loop n ld s'
         | Break s' \<Rightarrow> Done s'
         | Fault e s' \<Rightarrow> Raised e s'
         | Starved \<Rightarrow> OutOfFuel)
      else Done s)"
proof -
  have "(\<lambda>c. run_loop n ld ((fst c)\<lparr>line_idx := 0\<rparr>, snd c)) = run n ld"
    by (rule ext) (simp add: run_def)
  then show ?thesis by simp
qed

declare run_loop.simps(2) [simp del]

subsection \<open>What a step leaves alone\<close>

text \<open>
  No operation changes the program, the line table, the position or the store reference of
  the engine that executes it, and only the run loop extends \<open>visited\<close>.
\<close>

lemma exec_op_frame:
  "exec_op sub ld c (rt, h) = Done (rt', h') \<Longrightarrow>
     program rt' = program rt \<and> lines rt' = lines rt \<and> line_idx rt' = line_idx rt
     \<and> globals rt' = globals rt \<and> visited rt' = visited rt"
  by (cases c)
     (auto simp: exec_op_def with_heap_def goto_def gosub_def return_sub_def halt_def put_def
        run_file_def Let_def split: if_splits option.splits sum.splits outcome.splits prod.splits)

lemma exec_step_frame:
  "exec_step sub ld stmt (rt, h) = Done (rt', h') \<Longrightarrow>
     program rt' = program rt \<and> lines rt' = lines rt \<and> line_idx rt' = line_idx rt
     \<and> globals rt' = globals rt \<and> visited rt' = visited rt"
proof (induction stmt arbitrary: rt h)
  case Stop
  then show ?case by simp
next
  case (Act c k)
  then show ?case
    by (auto split: outcome.splits dest!: exec_op_frame) 
next
  case (Look f)
  from Look.prems have "exec_step sub ld (f (cells h (globals rt))) (rt, h) = Done (rt', h')"
    by simp
  then show ?case by (rule Look.IH[OF rangeI])
qed

subsection \<open>The halt flag is never cleared inside a step\<close>

lemma exec_op_halted:
  "exec_op sub ld c (rt, h) = Done (rt', h') \<Longrightarrow> halted rt \<Longrightarrow> halted rt'"
  by (cases c)
     (auto simp: exec_op_def with_heap_def goto_def gosub_def return_sub_def halt_def put_def
        run_file_def Let_def split: if_splits option.splits sum.splits outcome.splits prod.splits)

lemma exec_step_halted:
  "exec_step sub ld stmt (rt, h) = Done (rt', h') \<Longrightarrow> halted rt \<Longrightarrow> halted rt'"
proof (induction stmt arbitrary: rt h)
  case Stop
  then show ?case by simp
next
  case (Act c k)
  then show ?case
    by (auto split: outcome.splits dest: exec_op_halted)
next
  case (Look f)
  from Look.prems(1) have "exec_step sub ld (f (cells h (globals rt))) (rt, h) = Done (rt', h')"
    by simp
  then show ?case using Look.prems(2) by (rule Look.IH[OF rangeI])
qed

lemma exec_step_after_halt:
  assumes "exec_step sub ld (seq pre (Act Halt post)) s = Done (rt', h')"
  shows "halted rt'"
proof -
  from assms obtain s1 where s1: "exec_step sub ld pre s = Done s1"
    and rest: "exec_step sub ld (Act Halt post) s1 = Done (rt', h')"
    by (auto simp: exec_step_seq split: outcome.splits)
  obtain rt1 h1 where [simp]: "s1 = (rt1, h1)" by (cases s1)
  from rest have "exec_step sub ld post (halt rt1, h1) = Done (rt', h')"
    by (simp add: exec_op_def)
  then show ?thesis by (rule exec_step_halted) (simp add: halt_def)
qed

lemma exec_step_after_return_sentinel:
  assumes "exec_step sub ld pre s = Done (rt1, h1)" "stack rt1 \<noteq> []" "last (stack rt1) = None"
    and "exec_step sub ld (seq pre (Act Return post)) s = Done (rt', h')"
  shows "halted rt'"
proof -
  from assms have "exec_step sub ld (Act Return post) (rt1, h1) = Done (rt', h')"
    by (simp add: exec_step_seq)
  with assms(2,3) have
    "exec_step sub ld post (rt1\<lparr>stack := butlast (stack rt1), halted := True, returning := True\<rparr>, h1)
       = Done (rt', h')"
    by (simp add: exec_op_def with_heap_def return_sub_def Let_def)
  then show ?thesis by (rule exec_step_halted) simp
qed

lemma call_step_visited:
  assumes "call_step sub ld (rt, h) = Done (rt', h')"
  shows "visited rt' = visited rt @ [lines rt ! line_idx rt]"
  using assms
  by (auto simp: call_step_def Let_def split: option.splits dest!: exec_step_frame)

lemma call_step_frame:
  assumes "call_step sub ld (rt, h) = Done (rt', h')"
  shows "program rt' = program rt \<and> lines rt' = lines rt \<and> line_idx rt' = line_idx rt
         \<and> globals rt' = globals rt"
  using assms
  by (auto simp: call_step_def Let_def split: option.splits dest!: exec_step_frame)

subsection \<open>The next line in ascending order\<close>



subsection \<open>The signals after a step\<close>

lemma exec_op_signals:
  "exec_op sub ld c (rt, h) = Done (rt', h') \<Longrightarrow> signals_ok rt \<Longrightarrow> signals_ok rt'"
  by (cases c)
     (auto simp: exec_op_def with_heap_def goto_def gosub_def return_sub_def halt_def put_def
        run_file_def Let_def signals_ok_def
        split: if_splits option.splits sum.splits outcome.splits prod.splits)

lemma exec_step_signals:
  "exec_step sub ld stmt (rt, h) = Done (rt', h') \<Longrightarrow> signals_ok rt \<Longrightarrow> signals_ok rt'"
proof (induction stmt arbitrary: rt h)
  case Stop
  then show ?case by simp
next
  case (Act c k)
  then show ?case
    by (auto split: outcome.splits dest: exec_op_signals)
next
  case (Look f)
  from Look.prems(1) have "exec_step sub ld (f (cells h (globals rt))) (rt, h) = Done (rt', h')"
    by simp
  then show ?case using Look.prems(2) by (rule Look.IH[OF rangeI])
qed

lemma call_step_signals:
  assumes "call_step sub ld s = Done (rt2, h2)"
  shows "signals_ok rt2"
proof -
  obtain rt h where s: "s = (rt, h)" by (cases s)
  from assms obtain stmt where
    "exec_step sub ld stmt (rt\<lparr>goto_line := None, returning := False,
        visited := visited rt @ [lines rt ! line_idx rt]\<rparr>, h) = Done (rt2, h2)"
    by (auto simp: s call_step_def Let_def split: option.splits)
  then show ?thesis
    by (rule exec_step_signals) (simp add: signals_ok_def)
qed

lemma resolve_without_branch_eq:
  "signals_ok rt \<Longrightarrow> resolve_without_branch rt = resolve rt"
  by (auto simp: signals_ok_def resolve_without_branch_def resolve_def)

lemma loop_body_without_branch_eq:
  "loop_body_without_branch sub ld s = loop_body sub ld s"
proof (cases "call_step sub ld s")
  case (Done s2)
  obtain rt2 h2 where s2: "s2 = (rt2, h2)" by (cases s2)
  from Done s2 have "signals_ok rt2" by (simp add: call_step_signals)
  with Done s2 show ?thesis
    by (simp add: loop_body_without_branch_def loop_body_def resolve_without_branch_eq)
next
  case (Raised e s')
  then show ?thesis by (simp add: loop_body_without_branch_def loop_body_def)
next
  case OutOfFuel
  then show ?thesis by (simp add: loop_body_without_branch_def loop_body_def)
qed

lemma run_loop_without_branch_eq:
  "run_loop_without_branch n ld s = run_loop n ld s"
proof (induction n arbitrary: s)
  case 0
  show ?case by simp
next
  case (Suc n)
  have sub: "(\<lambda>c. run_loop n ld ((fst c)\<lparr>line_idx := 0\<rparr>, snd c)) = run n ld"
    by (rule ext) (simp add: run_def)
  show ?case
    by (simp add: sub run_loop_Suc loop_body_without_branch_eq Suc.IH cong: flow.case_cong)
qed

subsection \<open>The invariant of the engine\<close>

lemma Runtime_init_fields:
  "program (fst (Runtime_init prog g h)) = prog"
  "lines (fst (Runtime_init prog g h)) = sorted_keys prog"
  "line_idx (fst (Runtime_init prog g h)) = 0"
  "stack (fst (Runtime_init prog g h)) = []"
  "goto_line (fst (Runtime_init prog g h)) = None"
  "returning (fst (Runtime_init prog g h)) = False"
  "halted (fst (Runtime_init prog g h)) = False"
  "visited (fst (Runtime_init prog g h)) = []"
  by (simp_all add: Runtime_init_def split: option.splits prod.splits)

lemma engine_inv_init: "engine_inv (fst (Runtime_init prog g h))"
  by (simp add: engine_inv_def Runtime_init_fields known_line_def)

lemma engine_inv_update [simp]:
  "engine_inv (rt\<lparr>line_idx := i\<rparr>) = engine_inv rt"
  "engine_inv (rt\<lparr>returning := b\<rparr>) = engine_inv rt"
  "engine_inv (rt\<lparr>halted := b\<rparr>) = engine_inv rt"
  "engine_inv (rt\<lparr>visited := v\<rparr>) = engine_inv rt"
  by (simp_all add: engine_inv_def known_line_def)

lemma engine_inv_reset:
  "engine_inv rt \<Longrightarrow> engine_inv (rt\<lparr>goto_line := None\<rparr>)"
  by (auto simp: engine_inv_def known_line_def)

lemma goto_inv: "engine_inv rt \<Longrightarrow> goto L rt = Done rt' \<Longrightarrow> engine_inv rt'"
  by (auto simp: goto_def engine_inv_def known_line_def map_of_None_keys split: if_splits)

lemma gosub_inv: "engine_inv rt \<Longrightarrow> gosub L rt = Done rt' \<Longrightarrow> engine_inv rt'"
  by (auto simp: gosub_def engine_inv_def known_line_def map_of_None_keys Let_def
      split: if_splits)

lemma return_inv: "engine_inv rt \<Longrightarrow> return_sub rt = Done rt' \<Longrightarrow> engine_inv rt'"
proof -
  assume inv: "engine_inv rt" and r: "return_sub rt = Done rt'"
  from r have ne: "stack rt \<noteq> []" by (auto simp: return_sub_def split: if_splits)
  from inv have all: "list_all (known_line (lines rt)) (stack rt)" by (auto simp: engine_inv_def)
  from ne all have top: "known_line (lines rt) (last (stack rt))"
    by (simp add: list_all_iff)
  from all have rest: "list_all (known_line (lines rt)) (butlast (stack rt))"
    by (auto simp: list_all_iff dest: in_set_butlastD)
  show ?thesis
    using inv r ne top rest
    by (auto simp: return_sub_def engine_inv_def known_line_def Let_def split: option.splits)
qed

lemma exec_op_inv:
  "exec_op sub ld c (rt, h) = Done (rt', h') \<Longrightarrow> engine_inv rt \<Longrightarrow> engine_inv rt'"
  by (cases c)
     (auto simp: exec_op_def with_heap_def halt_def put_def run_file_def
        dest: goto_inv gosub_inv return_inv
        split: sum.splits outcome.splits prod.splits)

lemma exec_step_inv:
  "exec_step sub ld stmt (rt, h) = Done (rt', h') \<Longrightarrow> engine_inv rt \<Longrightarrow> engine_inv rt'"
proof (induction stmt arbitrary: rt h)
  case Stop
  then show ?case by simp
next
  case (Act c k)
  then show ?case
    by (auto split: outcome.splits dest: exec_op_inv)
next
  case (Look f)
  from Look.prems(1) have "exec_step sub ld (f (cells h (globals rt))) (rt, h) = Done (rt', h')"
    by simp
  then show ?case using Look.prems(2) by (rule Look.IH[OF rangeI])
qed

subsection \<open>No lookup fails\<close>

text \<open>
  The nested run is a parameter of the step; what is assumed of it is what the induction
  on the fuel provides.
\<close>

lemma exec_op_no_lookup_error:
  assumes sub: "\<forall>c e s'. engine_inv (fst c) \<and> sub c = Raised e s' \<longrightarrow> \<not> lookup_error e"
    and r: "exec_op sub ld c s = Raised e s'"
  shows "\<not> lookup_error e"
proof (cases c)
  case (RunFile f g)
  obtain rt h where s: "s = (rt, h)" by (cases s)
  show ?thesis
  proof (cases "load_program ld f")
    case (Inl e')
    with r RunFile s have "e = e'" by (simp add: exec_op_def run_file_def)
    with Inl show ?thesis
      by (auto simp: load_program_def split: loaded.splits)
  next
    case (Inr prog)
    let ?c = "Runtime_init prog (Some (or_globals g (globals rt) h)) h"
    from r RunFile s Inr obtain s2 where "sub ?c = Raised e s2"
      by (auto simp: exec_op_def run_file_def split: outcome.splits prod.splits)
    with sub show ?thesis using engine_inv_init[of prog "Some (or_globals g (globals rt) h)" h]
      by blast
  qed
qed (use r in \<open>auto simp: exec_op_def with_heap_def goto_def gosub_def return_sub_def Let_def
        split: if_splits outcome.splits\<close>)

lemma exec_step_no_lookup_error:
  assumes sub: "\<forall>c e s'. engine_inv (fst c) \<and> sub c = Raised e s' \<longrightarrow> \<not> lookup_error e"
  shows "exec_step sub ld stmt s = Raised e s' \<Longrightarrow> \<not> lookup_error e"
proof (induction stmt arbitrary: s)
  case Stop
  then show ?case by simp
next
  case (Act c k)
  show ?case
  proof (cases "exec_op sub ld c s")
    case (Done s1)
    with Act.prems have "exec_step sub ld k s1 = Raised e s'" by simp
    then show ?thesis by (rule Act.IH)
  next
    case (Raised e1 s1)
    with Act.prems have "e1 = e" by simp
    with Raised exec_op_no_lookup_error[OF sub] show ?thesis by simp
  next
    case OutOfFuel
    with Act.prems show ?thesis by simp
  qed
next
  case (Look f)
  from Look.prems have "exec_step sub ld (f (cells (snd s) (globals (fst s)))) s = Raised e s'"
    by simp
  then show ?case by (rule Look.IH[OF rangeI])
qed

lemma call_step_no_lookup_error:
  assumes sub: "\<forall>c e s'. engine_inv (fst c) \<and> sub c = Raised e s' \<longrightarrow> \<not> lookup_error e"
    and inv: "engine_inv rt" and idx: "line_idx rt < length (lines rt)"
    and r: "call_step sub ld (rt, h) = Raised e s'"
  shows "\<not> lookup_error e"
proof -
  from inv idx have "lines rt ! line_idx rt \<in> set (sorted_keys (program rt))"
    by (auto simp: engine_inv_def dest: nth_mem)
  then obtain stmt where "map_of (program rt) (lines rt ! line_idx rt) = Some stmt"
    using map_of_None_keys[of "program rt" "lines rt ! line_idx rt"] by auto
  with r have "exec_step sub ld stmt (rt\<lparr>goto_line := None, returning := False,
        visited := visited rt @ [lines rt ! line_idx rt]\<rparr>, h) = Raised e s'"
    by (simp add: call_step_def Let_def)
  then show ?thesis by (rule exec_step_no_lookup_error[OF sub])
qed

lemma call_step_inv:
  assumes "call_step sub ld (rt, h) = Done (rt', h')" "engine_inv rt"
  shows "engine_inv rt'"
proof -
  from assms(1) obtain stmt where
    "exec_step sub ld stmt (rt\<lparr>goto_line := None, returning := False,
        visited := visited rt @ [lines rt ! line_idx rt]\<rparr>, h) = Done (rt', h')"
    by (auto simp: call_step_def Let_def split: option.splits)
  then show ?thesis
    by (rule exec_step_inv) (use assms(2) in \<open>simp add: engine_inv_reset\<close>)
qed

lemma resolve_cases:
  assumes "engine_inv rt"
  shows "resolve rt = Break rt \<or> (\<exists>i. resolve rt = Continue (rt\<lparr>line_idx := i\<rparr>))"
proof (cases "goto_line rt")
  case None
  then show ?thesis by (auto simp: resolve_def advance_def)
next
  case (Some l)
  with assms have "l \<in> set (lines rt)" by (auto simp: engine_inv_def known_line_def)
  then obtain i where "index_of (lines rt) l = Some i"
    using index_of_None[of "lines rt" l] by auto
  with Some show ?thesis by (auto simp: resolve_def jump_def)
qed

lemma loop_body_safe:
  assumes sub: "\<forall>c e s'. engine_inv (fst c) \<and> sub c = Raised e s' \<longrightarrow> \<not> lookup_error e"
    and inv: "engine_inv (fst s)" and idx: "line_idx (fst s) < length (lines (fst s))"
  shows "(case loop_body sub ld s of
            Continue s' \<Rightarrow> engine_inv (fst s')
          | Break s' \<Rightarrow> engine_inv (fst s')
          | Fault e s' \<Rightarrow> \<not> lookup_error e
          | Starved \<Rightarrow> True)"
proof (cases "halted (fst s)")
  case True
  with inv show ?thesis by (simp add: loop_body_def)
next
  case False
  obtain rt h where s: "s = (rt, h)" by (cases s)
  show ?thesis
  proof (cases "call_step sub ld s")
    case (Done s2)
    obtain rt2 h2 where s2: "s2 = (rt2, h2)" by (cases s2)
    from Done s s2 inv have inv2: "engine_inv rt2" by (auto dest: call_step_inv)
    from resolve_cases[OF inv2] inv2 Done s2 False show ?thesis
      by (auto simp: loop_body_def on_heap_def)
  next
    case (Raised e s')
    with call_step_no_lookup_error[OF sub, of rt ld h e s'] inv idx s False show ?thesis
      by (simp add: loop_body_def)
  next
    case OutOfFuel
    with False show ?thesis by (simp add: loop_body_def)
  qed
qed

lemma run_loop_safe:
  "engine_inv (fst s) \<Longrightarrow>
     (case run_loop n ld s of
        Done s' \<Rightarrow> engine_inv (fst s')
      | Raised e s' \<Rightarrow> \<not> lookup_error e
      | OutOfFuel \<Rightarrow> True)"
proof (induction n arbitrary: s)
  case 0
  show ?case by simp
next
  case (Suc n)
  have sub: "\<forall>c e s'. engine_inv (fst c) \<and> run n ld c = Raised e s' \<longrightarrow> \<not> lookup_error e"
  proof (intro allI impI)
    fix c :: "runtime \<times> heap" and e s'
    assume a: "engine_inv (fst c) \<and> run n ld c = Raised e s'"
    then have "engine_inv (fst ((fst c)\<lparr>line_idx := 0\<rparr>, snd c))" by simp
    from Suc.IH[OF this] a show "\<not> lookup_error e" by (simp add: run_def)
  qed
  show ?case
  proof (cases "line_idx (fst s) < length (lines (fst s))")
    case True
    from loop_body_safe[OF sub Suc.prems True, of ld] show ?thesis
      using True Suc.IH
      by (cases "loop_body (run n ld) ld s") (simp_all add: run_loop_Suc)
  next
    case False
    with Suc.prems show ?thesis by (simp add: run_loop_Suc)
  qed
qed

subsection \<open>Steps without control operations\<close>











subsection \<open>The run of an engine keeps its program and its store reference\<close>

lemma resolve_frame:
  "resolve rt = Continue rt' \<or> resolve rt = Break rt' \<Longrightarrow>
     program rt' = program rt \<and> lines rt' = lines rt \<and> globals rt' = globals rt"
  by (auto simp: resolve_def jump_def advance_def split: if_splits option.splits)

lemma loop_body_frame:
  assumes "loop_body sub ld (rt, h) = Continue (rt', h') \<or> loop_body sub ld (rt, h) = Break (rt', h')"
  shows "program rt' = program rt \<and> lines rt' = lines rt \<and> globals rt' = globals rt"
proof (cases "halted rt")
  case True
  with assms show ?thesis by (simp add: loop_body_def)
next
  case False
  show ?thesis
  proof (cases "call_step sub ld (rt, h)")
    case (Done s2)
    obtain rt2 h2 where s2: "s2 = (rt2, h2)" by (cases s2)
    from assms False Done s2 have r: "resolve rt2 = Continue rt' \<or> resolve rt2 = Break rt'"
      by (auto simp: loop_body_def on_heap_def split: flow.splits)
    from Done s2 have "call_step sub ld (rt, h) = Done (rt2, h2)" by simp
    from call_step_frame[OF this] resolve_frame[OF r] show ?thesis by simp
  next
    case (Raised e s2)
    with assms False show ?thesis by (simp add: loop_body_def)
  next
    case OutOfFuel
    with assms False show ?thesis by (simp add: loop_body_def)
  qed
qed

lemma run_loop_frame:
  "run_loop n ld (rt, h) = Done (rt', h') \<Longrightarrow>
     program rt' = program rt \<and> lines rt' = lines rt \<and> globals rt' = globals rt"
proof (induction n arbitrary: rt h)
  case 0
  then show ?case by simp
next
  case (Suc n)
  show ?case
  proof (cases "line_idx rt < length (lines rt)")
    case False
    with Suc.prems show ?thesis by (simp add: run_loop_Suc)
  next
    case True
    show ?thesis
    proof (cases "loop_body (run n ld) ld (rt, h)")
      case (Continue s1)
      obtain rt1 h1 where s1: "s1 = (rt1, h1)" by (cases s1)
      from Suc.prems True Continue s1 have "run_loop n ld (rt1, h1) = Done (rt', h')"
        by (simp add: run_loop_Suc)
      from Suc.IH[OF this] loop_body_frame[of "run n ld" ld rt h rt1 h1] Continue s1
      show ?thesis by simp
    next
      case (Break s1)
      with Suc.prems True have "s1 = (rt', h')" by (simp add: run_loop_Suc)
      with loop_body_frame[of "run n ld" ld rt h rt' h'] Break show ?thesis by simp
    next
      case (Fault e s1)
      with Suc.prems True show ?thesis by (simp add: run_loop_Suc)
    next
      case Starved
      with Suc.prems True show ?thesis by (simp add: run_loop_Suc)
    qed
  qed
qed

subsection \<open>Nested invocation\<close>

lemma Runtime_init_Some:
  "Runtime_init prog (Some a) h =
     (\<lparr>program = prog, lines = sorted_keys prog, line_idx = 0, stack = [],
       globals = a, goto_line = None, returning = False, halted = False,
       visited = []\<rparr>, h)"
  by (simp add: Runtime_init_def)

lemma run_file_Module:
  assumes "ld f = Module prog"
  shows "run_file sub ld f g (rt, h) =
           (case sub (Runtime_init prog (Some (or_globals g (globals rt) h)) h) of
              Done (c, h') \<Rightarrow> Done (rt, h')
            | Raised e (c, h') \<Rightarrow> Raised e (rt, h')
            | OutOfFuel \<Rightarrow> OutOfFuel)"
  using assms by (simp add: run_file_def load_program_def)

lemma run_file_parent:
  "run_file sub ld f g (rt, h) = Done (rt', h') \<or> run_file sub ld f g (rt, h) = Raised e (rt', h')
     \<Longrightarrow> rt' = rt"
  by (auto simp: run_file_def split: sum.splits outcome.splits prod.splits)

lemma run_file_child:
  assumes "ld f = Module prog"
  shows "\<exists>c. Runtime_init prog (Some (or_globals g (globals rt) h)) h = (c, h)
           \<and> program c = prog \<and> lines c = sorted_keys prog \<and> line_idx c = 0 \<and> stack c = []
           \<and> goto_line c = None \<and> \<not> returning c \<and> \<not> halted c
           \<and> globals c = or_globals g (globals rt) h
           \<and> run_file sub ld f g (rt, h) =
                (case sub (c, h) of
                   Done (c', h') \<Rightarrow> Done (rt, h')
                 | Raised e (c', h') \<Rightarrow> Raised e (rt, h')
                 | OutOfFuel \<Rightarrow> OutOfFuel)"
  using assms by (simp add: run_file_Module Runtime_init_Some)

lemma run_file_shares_store:
  assumes "ld f = Module prog" "run_file (run n ld) ld f None (rt, h) = Done (rt', h')"
  shows "\<exists>c c'. Runtime_init prog (Some (globals rt)) h = (c, h)
           \<and> run n ld (c, h) = Done (c', h') \<and> globals c' = globals rt'"
proof -
  obtain c where i: "Runtime_init prog (Some (globals rt)) h = (c, h)" and gc: "globals c = globals rt"
    by (simp add: Runtime_init_Some)
  from assms(2) have p: "rt' = rt" using run_file_parent by blast
  from assms i obtain c' where c: "run n ld (c, h) = Done (c', h')"
    by (auto simp: run_file_Module or_globals_def split: outcome.splits)
  then have "run_loop n ld (c\<lparr>line_idx := 0\<rparr>, h) = Done (c', h')"
    by (simp add: run_def)
  from run_loop_frame[OF this] gc have "globals c' = globals rt" by simp
  with i c p show ?thesis by blast
qed

lemma run_file_step_resumes:
  assumes "\<not> halted rt" "line_idx rt < length (lines rt)"
    and "map_of (program rt) (lines rt ! line_idx rt) = Some (Act (RunFile f g) Stop)"
    and "call_step sub ld (rt, h) = Done (rt2, h2)"
  shows "stack rt2 = stack rt \<and> line_idx rt2 = line_idx rt \<and> \<not> halted rt2
          \<and> loop_body sub ld (rt, h) =
               (if line_idx rt + 1 < length (lines rt)
                then Continue (rt2\<lparr>line_idx := line_idx rt + 1\<rparr>, h2)
                else Break (rt2, h2))"
proof -
  let ?rt1 = "rt\<lparr>goto_line := None, returning := False,
        visited := visited rt @ [lines rt ! line_idx rt]\<rparr>"
  from assms have "run_file sub ld f g (?rt1, h) = Done (rt2, h2)"
    by (auto simp: call_step_def Let_def exec_op_def split: outcome.splits)
  then have rt2: "rt2 = ?rt1" using run_file_parent by blast
  with assms show ?thesis
    by (simp add: loop_body_def resolve_def advance_def on_heap_def)
qed

subsection \<open>A step that calls halt\<close>

lemma halt_step_never_continues:
  assumes m: "map_of (program rt) (lines rt ! line_idx rt) = Some (seq pre (Act Halt post))"
  shows "loop_body sub ld (rt, h) \<noteq> Continue s'"
proof (cases "call_step sub ld (rt, h)")
  case (Done s2)
  obtain rt2 h2 where s2: "s2 = (rt2, h2)" by (cases s2)
  from Done s2 m have "halted rt2"
    by (auto simp: call_step_def Let_def dest: exec_step_after_halt)
  with Done s2 show ?thesis by (simp add: loop_body_def resolve_def on_heap_def)
next
  case (Raised e s2)
  then show ?thesis by (simp add: loop_body_def)
next
  case OutOfFuel
  then show ?thesis by (simp add: loop_body_def)
qed

subsection \<open>The example programs\<close>

lemma engine_at_fields:
  "program (engine_at prog i) = prog"
  "lines (engine_at prog i) = sorted_keys prog"
  "line_idx (engine_at prog i) = i"
  "stack (engine_at prog i) = []"
  "globals (engine_at prog i) = 0"
  "goto_line (engine_at prog i) = None"
  "returning (engine_at prog i) = False"
  "halted (engine_at prog i) = False"
  "visited (engine_at prog i) = []"
  by (simp_all add: engine_at_def Runtime_init_def)

lemma keys_prog_gosub: "sorted_keys prog_gosub = [10, 20, 30, 50, 60]"
  by (simp add: sorted_keys_def prog_gosub_def)

lemma keys_prog_halt_goto: "sorted_keys prog_halt_goto = [10, 20, 30]"
  by (simp add: sorted_keys_def prog_halt_goto_def)


lemma keys_prog_parent: "sorted_keys prog_parent_shared = [10, 20]"
  by (simp add: sorted_keys_def prog_parent_shared_def)

subsection \<open>A program without control operations whose steps complete\<close>






subsection \<open>What follows the last jump request of a step\<close>

lemma exec_op_jump_free:
  "\<not> jump_op c \<Longrightarrow> exec_op sub ld c (rt, h) = Done (rt', h') \<Longrightarrow>
     stack rt' = stack rt \<and> goto_line rt' = goto_line rt \<and> returning rt' = returning rt"
  by (cases c)
     (auto simp: exec_op_def halt_def put_def run_file_def
        split: sum.splits outcome.splits prod.splits)

lemma exec_step_jump_free:
  "jump_free stmt \<Longrightarrow> exec_step sub ld stmt (rt, h) = Done (rt', h') \<Longrightarrow>
     stack rt' = stack rt \<and> goto_line rt' = goto_line rt \<and> returning rt' = returning rt"
proof (induction stmt arbitrary: rt h)
  case Stop
  then show ?case by simp
next
  case (Act c k)
  from Act.prems obtain rt1 h1 where
    1: "exec_op sub ld c (rt, h) = Done (rt1, h1)" and 2: "exec_step sub ld k (rt1, h1) = Done (rt', h')"
    by (auto split: outcome.splits)
  from Act.prems(1) have "\<not> jump_op c" "jump_free k" by simp_all
  from exec_op_jump_free[OF this(1) 1] Act.IH[OF this(2) 2] show ?case by simp
next
  case (Look f)
  from Look.prems have "jump_free (f (cells h (globals rt)))"
    and "exec_step sub ld (f (cells h (globals rt))) (rt, h) = Done (rt', h')"
    by simp_all
  then show ?case by (rule Look.IH[OF rangeI])
qed

lemma exec_step_seq_Done:
  assumes "exec_step sub ld (seq a b) s = Done s'"
  shows "\<exists>rt1 h1. exec_step sub ld a s = Done (rt1, h1) \<and> exec_step sub ld b (rt1, h1) = Done s'"
  using assms by (auto simp: exec_step_seq split: outcome.splits)

lemma exec_step_goto_then:
  assumes "jump_free post"
    and "exec_step sub ld (seq pre (Act (Goto L) post)) s = Done (rt', h')"
  shows "goto_line rt' = Some L"
proof -
  from exec_step_seq_Done[OF assms(2)] obtain rt1 h1 where
    "exec_step sub ld (Act (Goto L) post) (rt1, h1) = Done (rt', h')"
    by blast
  then have "exec_step sub ld post (rt1\<lparr>goto_line := Some L\<rparr>, h1) = Done (rt', h')"
    by (auto simp: exec_op_def with_heap_def goto_def split: if_splits)
  from exec_step_jump_free[OF assms(1) this] show ?thesis by simp
qed

lemma exec_step_gosub_then:
  assumes "jump_free post"
    and "exec_step sub ld (seq pre (Act (Gosub L) post)) s = Done (rt', h')"
  shows "goto_line rt' = Some L"
proof -
  from exec_step_seq_Done[OF assms(2)] obtain rt1 h1 where
    "exec_step sub ld (Act (Gosub L) post) (rt1, h1) = Done (rt', h')"
    by blast
  then obtain a where
    "exec_step sub ld post (rt1\<lparr>stack := stack rt1 @ [a], goto_line := Some L\<rparr>, h1) = Done (rt', h')"
    by (auto simp: exec_op_def with_heap_def gosub_def Let_def split: if_splits)
  from exec_step_jump_free[OF assms(1) this] show ?thesis by simp
qed

lemma exec_step_return_then:
  assumes "jump_free post"
    and "exec_step sub ld pre s = Done (rt1, h1)"
    and "exec_step sub ld (seq pre (Act Return post)) s = Done (rt', h')"
  shows "stack rt1 \<noteq> [] \<and> stack rt' = butlast (stack rt1) \<and> returning rt' \<and>
         (case last (stack rt1) of
            Some r \<Rightarrow> goto_line rt' = Some r
          | None \<Rightarrow> halted rt' \<and> goto_line rt' = goto_line rt1)"
proof -
  from assms(2,3) have r: "exec_step sub ld (Act Return post) (rt1, h1) = Done (rt', h')"
    by (simp add: exec_step_seq)
  then have ne: "stack rt1 \<noteq> []"
    by (auto simp: exec_op_def with_heap_def return_sub_def split: if_splits)
  show ?thesis
  proof (cases "last (stack rt1)")
    case None
    with r ne have e: "exec_step sub ld post
        (rt1\<lparr>stack := butlast (stack rt1), halted := True, returning := True\<rparr>, h1) = Done (rt', h')"
      by (simp add: exec_op_def with_heap_def return_sub_def Let_def)
    from exec_step_jump_free[OF assms(1) e] exec_step_halted[OF e] None ne
    show ?thesis by simp
  next
    case (Some l)
    with r ne have e: "exec_step sub ld post
        (rt1\<lparr>stack := butlast (stack rt1), goto_line := Some l, returning := True\<rparr>, h1)
          = Done (rt', h')"
      by (simp add: exec_op_def with_heap_def return_sub_def Let_def)
    from exec_step_jump_free[OF assms(1) e] Some ne
    show ?thesis by simp
  qed
qed

lemma goto_step_continues_at_target:
  assumes tbl: "lines rt = sorted_keys (program rt)"
    and nh: "\<not> halted rt"
    and m: "map_of (program rt) (lines rt ! line_idx rt) = Some (seq pre (Act (Goto L) post))"
    and jf: "jump_free post"
    and cs: "call_step sub ld (rt, h) = Done (rt', h')"
    and nh': "\<not> halted rt'"
  shows "\<exists>j. index_of (lines rt) L = Some j \<and> lines rt ! j = L
           \<and> loop_body sub ld (rt, h) = Continue (rt'\<lparr>line_idx := j\<rparr>, h')"
proof -
  let ?e = "rt\<lparr>goto_line := None, returning := False,
        visited := visited rt @ [lines rt ! line_idx rt]\<rparr>"
  from cs m have e: "exec_step sub ld (seq pre (Act (Goto L) post)) (?e, h) = Done (rt', h')"
    by (simp add: call_step_def Let_def)
  from exec_step_goto_then[OF jf e] have g: "goto_line rt' = Some L" .
  from exec_step_seq_Done[OF e] obtain rt1 h1 where p: "exec_step sub ld pre (?e, h) = Done (rt1, h1)"
    and a: "exec_step sub ld (Act (Goto L) post) (rt1, h1) = Done (rt', h')"
    by blast
  from a have "map_of (program rt1) L \<noteq> None"
    by (auto simp: exec_op_def with_heap_def goto_def split: if_splits)
  with exec_step_frame[OF p] have "map_of (program rt) L \<noteq> None" by simp
  with tbl have "L \<in> set (lines rt)" by (simp add: map_of_None_keys)
  then obtain j where j: "index_of (lines rt) L = Some j"
    using index_of_None[of "lines rt" L] by auto
  from call_step_frame[OF cs] have "lines rt' = lines rt" by simp
  with j g nh nh' cs index_of_Some[OF j] show ?thesis
    by (simp add: loop_body_def resolve_def jump_def on_heap_def)
qed

subsection \<open>A call, the lines of the subroutine, the return\<close>
















section \<open>The tests of the repository, on the model\<close>

text \<open>
  Each test of \<^verbatim>\<open>tests/\<close> run on the model gives what the test asserts: the final
  store, the order of the lines, or the error. The last lemma is the nested run with an
  override that is not empty: the child writes to the dict supplied and the parent's store
  does not get the key.
\<close>

lemma test_goto:
  "store_of 0 (run 10 no_files (Runtime_init prog_test_goto (Some 0) heap0))
     = Some [(''x'', IntV 6)]
   \<and> visited_of (run 10 no_files (Runtime_init prog_test_goto (Some 0) heap0))
     = Some [10, 20, 40]"
  by code_simp

lemma test_gosub_return:
  "store_of 0 (run 10 no_files (Runtime_init prog_test_gosub_return (Some 0) heap0))
     = Some [(''x'', IntV 10), (''done'', BoolV True)]
   \<and> visited_of (run 10 no_files (Runtime_init prog_test_gosub_return (Some 0) heap0))
     = Some [10, 20, 50, 60, 30]"
  by code_simp

lemma test_nested_gosubs:
  "visited_of (run 10 no_files (Runtime_init prog_test_nested_gosubs (Some 0) heap0))
     = Some [10, 100, 200, 110, 20]"
  by code_simp

lemma test_goto_loop:
  "store_of 0 (run 10 no_files
      (Runtime_init prog_test_goto_loop (Some 0)
         (heap0\<lparr>cells := (cells heap0)(0 := [(''n'', IntV 0)])\<rparr>)))
     = Some [(''n'', IntV 3)]"
  by code_simp

lemma test_return_without_gosub:
  "error_of (run 10 no_files (Runtime_init prog_test_return_without_gosub (Some 0) heap0))
     = Some ReturnWithoutGosub"
  by code_simp

lemma test_nested_run_file:
  "store_of 0 (run 10 one_file
      (Runtime_init prog_test_nested_run_file (Some 0) heap0))
     = Some [(''msg'', StrV ''hello from subprog''), (''done'', BoolV True)]"
  by code_simp

lemma nonempty_override_is_isolated:
  "store_of 0 (run 5 one_file
      (Runtime_init prog_parent (Some 0) (heap0\<lparr>cells := (cells heap0)(1 := [(''a'', IntV 1)])\<rparr>)))
     = Some [(''done'', BoolV True)]
   \<and> store_of 1 (run 5 one_file
      (Runtime_init prog_parent (Some 0) (heap0\<lparr>cells := (cells heap0)(1 := [(''a'', IntV 1)])\<rparr>)))
     = Some [(''a'', IntV 1), (''msg'', StrV ''hello from subprog'')]"
  by code_simp

section \<open>The claims\<close>

subsection \<open>C1: a nested run with a state override\<close>

text \<open>
  Claim C1: a nested invocation that supplies a state override runs on the supplied store
  and not on the parent's, for every override value, the empty store included.

  The module computes the child's store as \<^verbatim>\<open>globals_dict or self.globals\<close>, and an empty
  dict is falsy, so an empty override is dropped: \<open>or_globals\<close> yields the parent's own
  store. The theorem runs the programs of \<^verbatim>\<open>test_nested_run_file\<close> with the parent on
  the dict at address 0 and the empty dict at address 1 passed as the override: the key the
  child writes ends in the parent's store, and the dict that was supplied stays empty.
\<close>

theorem empty_override_is_not_isolated:
  "store_of 0 (run 5 one_file (Runtime_init prog_parent (Some 0) heap0))
     = Some [(''msg'', StrV ''hello from subprog''), (''done'', BoolV True)]
   \<and> store_of 1 (run 5 one_file (Runtime_init prog_parent (Some 0) heap0)) = Some []"
  by code_simp

subsection \<open>C2: several control operations in one step\<close>

text \<open>
  Claim C2, as stated: only the last control operation of a step has an effect on the
  signals, and a step that calls \<^verbatim>\<open>halt()\<close> and then \<^verbatim>\<open>goto(L)\<close> for a line \<open>L\<close>
  of the program continues at \<open>L\<close>. The code does otherwise: the halt flag is never
  cleared and the loop tests it first. In \<open>prog_halt_goto\<close> line 10 calls
  \<^verbatim>\<open>halt()\<close> and then \<^verbatim>\<open>goto(30)\<close>; line 30 exists, and the run visits line 10 only
  and ends halted.
\<close>

theorem halt_then_goto_halts:
  "30 \<in> set (sorted_keys prog_halt_goto)
   \<and> visited_of (run 5 no_files (Runtime_init prog_halt_goto (Some 0) heap0)) = Some [10]
   \<and> halted_of (run 5 no_files (Runtime_init prog_halt_goto (Some 0) heap0)) = Some True"
  by code_simp

text \<open>
  Claim C2, amended: the pending jump target that a step leaves is the one set by the last
  \<^verbatim>\<open>goto\<close>, \<^verbatim>\<open>gosub\<close> or line-popping \<^verbatim>\<open>return_\<close> that the step has called,
  whatever the step does after it that is none of these three (store writes,
  \<^verbatim>\<open>run_file\<close>, \<^verbatim>\<open>halt\<close>): the last write wins among jump requests. A
  \<^verbatim>\<open>return_\<close> that pops the sentinel requests halt and leaves the target as it was. A
  halt request is kept whatever the step calls afterwards: after a step that has called
  \<^verbatim>\<open>halt()\<close> the flag is set, the loop breaks and the run does not continue, also when
  \<^verbatim>\<open>goto(L)\<close> follows the \<^verbatim>\<open>halt()\<close>. When the step ends with the flag clear, the
  loop continues at the position of the line of the last \<^verbatim>\<open>goto\<close>. Here
  \<open>seq pre (Act c post)\<close> is a step that does \<open>pre\<close>, then calls \<open>c\<close>, then does
  \<open>post\<close>.
\<close>

theorem halt_is_sticky_last_jump_wins:
  "(\<forall>post rt' h'. jump_free post
        \<and> exec_step sub ld (seq pre (Act (Goto L) post)) s = Done (rt', h') \<longrightarrow>
       goto_line rt' = Some L)
   \<and> (\<forall>post rt' h'. jump_free post
        \<and> exec_step sub ld (seq pre (Act (Gosub L) post)) s = Done (rt', h') \<longrightarrow>
       goto_line rt' = Some L)
   \<and> (\<forall>post rt1 h1 rt' h'. jump_free post
        \<and> exec_step sub ld pre s = Done (rt1, h1)
        \<and> exec_step sub ld (seq pre (Act Return post)) s = Done (rt', h') \<longrightarrow>
         (case last (stack rt1) of
            Some r \<Rightarrow> goto_line rt' = Some r
          | None \<Rightarrow> halted rt' \<and> goto_line rt' = goto_line rt1))
   \<and> (\<forall>post rt' h'. exec_step sub ld (seq pre (Act Halt post)) s = Done (rt', h') \<longrightarrow>
       halted rt' \<and> resolve rt' = Break rt')
   \<and> (\<forall>post rt h s'.
        map_of (program rt) (lines rt ! line_idx rt) = Some (seq pre (Act Halt post)) \<longrightarrow>
       loop_body sub ld (rt, h) \<noteq> Continue s')
   \<and> (\<forall>post rt h rt' h'. jump_free post
        \<and> lines rt = sorted_keys (program rt) \<and> \<not> halted rt
        \<and> map_of (program rt) (lines rt ! line_idx rt) = Some (seq pre (Act (Goto L) post))
        \<and> call_step sub ld (rt, h) = Done (rt', h') \<and> \<not> halted rt' \<longrightarrow>
       (\<exists>j. index_of (lines rt) L = Some j \<and> lines rt ! j = L
           \<and> loop_body sub ld (rt, h) = Continue (rt'\<lparr>line_idx := j\<rparr>, h')))"
proof (intro conjI)
  show "\<forall>post rt' h'. jump_free post
        \<and> exec_step sub ld (seq pre (Act (Goto L) post)) s = Done (rt', h') \<longrightarrow>
       goto_line rt' = Some L"
    using exec_step_goto_then by blast
  show "\<forall>post rt' h'. jump_free post
        \<and> exec_step sub ld (seq pre (Act (Gosub L) post)) s = Done (rt', h') \<longrightarrow>
       goto_line rt' = Some L"
    using exec_step_gosub_then by blast
  show "\<forall>post rt1 h1 rt' h'. jump_free post
        \<and> exec_step sub ld pre s = Done (rt1, h1)
        \<and> exec_step sub ld (seq pre (Act Return post)) s = Done (rt', h') \<longrightarrow>
         (case last (stack rt1) of
            Some r \<Rightarrow> goto_line rt' = Some r
          | None \<Rightarrow> halted rt' \<and> goto_line rt' = goto_line rt1)"
    using exec_step_return_then by blast
  show "\<forall>post rt' h'. exec_step sub ld (seq pre (Act Halt post)) s = Done (rt', h') \<longrightarrow>
       halted rt' \<and> resolve rt' = Break rt'"
  proof (intro allI impI)
    fix post rt' h'
    assume "exec_step sub ld (seq pre (Act Halt post)) s = Done (rt', h')"
    then have "halted rt'" by (rule exec_step_after_halt)
    then show "halted rt' \<and> resolve rt' = Break rt'" by (simp add: resolve_def)
  qed
  show "\<forall>post rt h s'.
        map_of (program rt) (lines rt ! line_idx rt) = Some (seq pre (Act Halt post)) \<longrightarrow>
       loop_body sub ld (rt, h) \<noteq> Continue s'"
    using halt_step_never_continues by blast
  show "\<forall>post rt h rt' h'. jump_free post
        \<and> lines rt = sorted_keys (program rt) \<and> \<not> halted rt
        \<and> map_of (program rt) (lines rt ! line_idx rt) = Some (seq pre (Act (Goto L) post))
        \<and> call_step sub ld (rt, h) = Done (rt', h') \<and> \<not> halted rt' \<longrightarrow>
       (\<exists>j. index_of (lines rt) L = Some j \<and> lines rt ! j = L
           \<and> loop_body sub ld (rt, h) = Continue (rt'\<lparr>line_idx := j\<rparr>, h'))"
    using goto_step_continues_at_target by blast
qed

text \<open>
  The step \<^verbatim>\<open>goto(30); g['x'] = 1; halt(); goto(20); g['y'] = 2\<close> on the engine of
  \<open>prog_halt_goto\<close>: the jump target is 20, the flag is set, and the loop breaks.
\<close>

theorem halt_is_sticky_last_jump_wins_witness:
  "\<exists>rt' h'. exec_step (run 1 no_files) no_files
               (Act (Goto 30) (Act (Put ''x'' (IntV 1)) (Act Halt (Act (Goto 20) (Act (Put ''y'' (IntV 2)) Stop)))))
               (engine_at prog_halt_goto 0, heap0) = Done (rt', h')
            \<and> goto_line rt' = Some 20 \<and> halted rt' \<and> resolve rt' = Break rt'"
proof -
  let ?s = "(engine_at prog_halt_goto 0, heap0)"
  let ?sub = "run 1 no_files"
  have m: "map_of prog_halt_goto 30 \<noteq> None" "map_of prog_halt_goto 20 \<noteq> None"
    by (simp_all add: prog_halt_goto_def)
  obtain rt' h' where
    e: "exec_step ?sub no_files
          (Act (Goto 30) (Act (Put ''x'' (IntV 1)) (Act Halt (Act (Goto 20) (Act (Put ''y'' (IntV 2)) Stop)))))
          ?s = Done (rt', h')"
    by (simp add: engine_at_fields m exec_op_def halt_def goto_def put_def with_heap_def)
  have 1: "exec_step ?sub no_files
          (seq (Act (Goto 30) (Act (Put ''x'' (IntV 1)) (Act Halt Stop)))
               (Act (Goto 20) (Act (Put ''y'' (IntV 2)) Stop))) ?s = Done (rt', h')"
    using e by simp
  have 2: "exec_step ?sub no_files
          (seq (Act (Goto 30) (Act (Put ''x'' (IntV 1)) Stop))
               (Act Halt (Act (Goto 20) (Act (Put ''y'' (IntV 2)) Stop)))) ?s = Done (rt', h')"
    using e by simp
  have jf: "jump_free (Act (Put ''y'' (IntV 2)) Stop)" by simp
  note t1 = halt_is_sticky_last_jump_wins[of ?sub no_files
      "Act (Goto 30) (Act (Put ''x'' (IntV 1)) (Act Halt Stop))" 20 ?s]
  from t1[THEN conjunct1, rule_format, of "Act (Put ''y'' (IntV 2)) Stop" rt' h'] 1 jf
  have g: "goto_line rt' = Some 20" by simp
  note t2 = halt_is_sticky_last_jump_wins[of ?sub no_files
      "Act (Goto 30) (Act (Put ''x'' (IntV 1)) Stop)" 20 ?s]
  from t2[THEN conjunct2, THEN conjunct2, THEN conjunct2, THEN conjunct1, rule_format,
      of "Act (Goto 20) (Act (Put ''y'' (IntV 2)) Stop)" rt' h'] 2
  have h: "halted rt' \<and> resolve rt' = Break rt'" by simp
  from e g h show ?thesis by blast
qed

subsection \<open>C3: the return address of a call\<close>



subsection \<open>C4: a jump or a call to an unknown line\<close>

text \<open>
  Claim C4: for a line \<open>L\<close> that is not a key of the program, \<^verbatim>\<open>goto(L)\<close> and
  \<^verbatim>\<open>gosub(L)\<close> raise the unknown-line error and the engine is as it was before the call:
  nothing is pushed on the stack, no jump target is set, and the store is untouched.
\<close>

theorem unknown_line_fails_atomically:
  assumes "L \<notin> fst ` set (program rt)"
  shows "goto L rt = Raised (NoSuchLine L) rt
         \<and> gosub L rt = Raised (NoSuchLine L) rt
         \<and> exec_op sub ld (Goto L) (rt, h) = Raised (NoSuchLine L) (rt, h)
         \<and> exec_op sub ld (Gosub L) (rt, h) = Raised (NoSuchLine L) (rt, h)"
proof -
  from assms have "map_of (program rt) L = None"
    by (simp add: map_of_eq_None_iff)
  then show ?thesis
    by (simp add: goto_def gosub_def exec_op_def with_heap_def)
qed

text \<open>Line 99 is not a line of \<open>prog_gosub\<close>.\<close>

theorem unknown_line_fails_atomically_witness:
  "(99::int) \<notin> fst ` set (program (fst (Runtime_init prog_gosub (Some 0) heap0)))
   \<and> gosub 99 (fst (Runtime_init prog_gosub (Some 0) heap0))
       = Raised (NoSuchLine 99) (fst (Runtime_init prog_gosub (Some 0) heap0))"
proof -
  have h: "(99::int) \<notin> fst ` set (program (fst (Runtime_init prog_gosub (Some 0) heap0)))"
    by (simp add: Runtime_init_def prog_gosub_def)
  show ?thesis using h unknown_line_fails_atomically[OF h] by simp
qed

subsection \<open>C5: a return on an empty stack\<close>

text \<open>
  Claim C5: with an empty call stack, \<^verbatim>\<open>return_()\<close> raises the unbalanced-return error
  and changes nothing: the engine (its stack and its signals) and the shared state are as
  they were before the call.
\<close>

theorem return_on_empty_stack_fails:
  assumes "stack rt = []"
  shows "return_sub rt = Raised ReturnWithoutGosub rt
         \<and> exec_op sub ld Return (rt, h) = Raised ReturnWithoutGosub (rt, h)"
  using assms by (simp add: return_sub_def exec_op_def with_heap_def)

text \<open>A new engine has an empty stack.\<close>

theorem return_on_empty_stack_fails_witness:
  "stack (fst (Runtime_init prog_gosub (Some 0) heap0)) = []
   \<and> exec_op (run 3 no_files) no_files Return (Runtime_init prog_gosub (Some 0) heap0)
       = Raised ReturnWithoutGosub (Runtime_init prog_gosub (Some 0) heap0)"
proof -
  have h: "stack (fst (Runtime_init prog_gosub (Some 0) heap0)) = []"
    by (simp add: Runtime_init_def)
  show ?thesis
    using h return_on_empty_stack_fails[OF h, of "run 3 no_files" no_files
        "snd (Runtime_init prog_gosub (Some 0) heap0)"]
    by simp
qed

subsection \<open>C6: halt ends the run\<close>

text \<open>
  Claim C6: when the step of the current line has requested halt, the run ends
  successfully with the state the step left, whatever jump target is pending, and the last
  line visited is the halting line. The loop enters a step only with the flag clear, and
  the flag is set after the step when the step has called \<^verbatim>\<open>halt()\<close>, or has called
  \<^verbatim>\<open>return_()\<close> with the sentinel on top of the stack, whatever it has called before
  (\<open>pre\<close>) and after (\<open>post\<close>).
\<close>

theorem halt_ends_the_run:
  assumes "line_idx rt < length (lines rt)"
    and "\<not> halted rt"
    and "call_step (run n ld) ld (rt, h) = Done (rt', h')"
  shows "(halted rt' \<longrightarrow>
            run_loop (Suc n) ld (rt, h) = Done (rt', h')
            \<and> visited rt' = visited rt @ [lines rt ! line_idx rt])
         \<and> (\<forall>pre post.
               map_of (program rt) (lines rt ! line_idx rt) = Some (seq pre (Act Halt post)) \<longrightarrow>
               halted rt')
         \<and> (\<forall>pre post rt1 h1.
               map_of (program rt) (lines rt ! line_idx rt) = Some (seq pre (Act Return post))
               \<and> exec_step (run n ld) ld pre
                    (rt\<lparr>goto_line := None, returning := False,
                        visited := visited rt @ [lines rt ! line_idx rt]\<rparr>, h) = Done (rt1, h1)
               \<and> stack rt1 \<noteq> [] \<and> last (stack rt1) = None \<longrightarrow>
               halted rt')"
proof (intro conjI)
  show "halted rt' \<longrightarrow>
            run_loop (Suc n) ld (rt, h) = Done (rt', h')
            \<and> visited rt' = visited rt @ [lines rt ! line_idx rt]"
    using assms call_step_visited[OF assms(3)]
    by (simp add: run_loop_Suc loop_body_def resolve_def on_heap_def)
  show "\<forall>pre post.
               map_of (program rt) (lines rt ! line_idx rt) = Some (seq pre (Act Halt post)) \<longrightarrow>
               halted rt'"
    using assms(3)
    by (auto simp: call_step_def Let_def dest: exec_step_after_halt)
  show "\<forall>pre post rt1 h1.
               map_of (program rt) (lines rt ! line_idx rt) = Some (seq pre (Act Return post))
               \<and> exec_step (run n ld) ld pre
                    (rt\<lparr>goto_line := None, returning := False,
                        visited := visited rt @ [lines rt ! line_idx rt]\<rparr>, h) = Done (rt1, h1)
               \<and> stack rt1 \<noteq> [] \<and> last (stack rt1) = None \<longrightarrow>
               halted rt'"
  proof (intro allI impI)
    fix pre post rt1 h1
    assume a: "map_of (program rt) (lines rt ! line_idx rt) = Some (seq pre (Act Return post))
               \<and> exec_step (run n ld) ld pre
                    (rt\<lparr>goto_line := None, returning := False,
                        visited := visited rt @ [lines rt ! line_idx rt]\<rparr>, h) = Done (rt1, h1)
               \<and> stack rt1 \<noteq> [] \<and> last (stack rt1) = None"
    with assms(3) have "exec_step (run n ld) ld (seq pre (Act Return post))
                    (rt\<lparr>goto_line := None, returning := False,
                        visited := visited rt @ [lines rt ! line_idx rt]\<rparr>, h) = Done (rt', h')"
      by (simp add: call_step_def Let_def)
    with a show "halted rt'" using exec_step_after_return_sentinel by blast
  qed
qed

text \<open>
  Line 10 of \<open>prog_halt_goto\<close> requests halt and leaves a jump target pending: the run
  visits line 10 only.
\<close>

theorem halt_ends_the_run_witness:
  "visited_of (run_loop (Suc 2) no_files (engine_at prog_halt_goto 0, heap0)) = Some [10]
   \<and> halted_of (run_loop (Suc 2) no_files (engine_at prog_halt_goto 0, heap0)) = Some True"
proof -
  let ?rt = "engine_at prog_halt_goto 0"
  note f = engine_at_fields keys_prog_halt_goto
  have m: "map_of prog_halt_goto 10 = Some (seq Stop (Act Halt (Act (Goto 30) Stop)))"
    "map_of prog_halt_goto 30 \<noteq> None"
    by (simp_all add: prog_halt_goto_def)
  obtain rt' h' where
    cs: "call_step (run 2 no_files) no_files (?rt, heap0) = Done (rt', h')"
    using m by (simp add: call_step_def f exec_op_def halt_def goto_def with_heap_def)
  have h1: "line_idx ?rt < length (lines ?rt)" by (simp add: f)
  have h2: "\<not> halted ?rt" by (simp add: f)
  have m': "map_of (program ?rt) (lines ?rt ! line_idx ?rt)
              = Some (seq Stop (Act Halt (Act (Goto 30) Stop)))"
    using m(1) by (simp add: f)
  note t = halt_ends_the_run[OF h1 h2 cs]
  from t m' have hl: "halted rt'" by blast
  with t have "run_loop (Suc 2) no_files (?rt, heap0) = Done (rt', h')"
    "visited rt' = visited ?rt @ [lines ?rt ! line_idx ?rt]"
    by blast+
  with hl show ?thesis
    by (simp add: visited_of_def halted_of_def f)
qed

subsection \<open>C7: a program without control operations\<close>




subsection \<open>C8: a nested run is local to the child engine\<close>

text \<open>
  Claim C8: \<^verbatim>\<open>run_file\<close> leaves the engine of the caller as it is, whether the nested
  run ends or raises: signals, position and stack of the parent are unchanged, whatever the
  child has called. The child is a new engine: the line table of its own program, position
  0, an empty stack, clear signals. When no override is passed, the child runs on the
  store of the parent, so that what the child has written is in the parent's store on
  return. After a step that only calls \<^verbatim>\<open>run_file\<close>, the parent goes on with its own
  next line, or ends when there is none.
\<close>

theorem nested_run_is_local:
  "(\<forall>rt' h'. run_file (run n ld) ld f g (rt, h) = Done (rt', h') \<longrightarrow> rt' = rt)
   \<and> (\<forall>e rt' h'. run_file (run n ld) ld f g (rt, h) = Raised e (rt', h') \<longrightarrow> rt' = rt)
   \<and> (\<forall>prog. ld f = Module prog \<longrightarrow>
         (\<exists>c. Runtime_init prog (Some (or_globals g (globals rt) h)) h = (c, h)
           \<and> program c = prog \<and> lines c = sorted_keys prog \<and> line_idx c = 0 \<and> stack c = []
           \<and> goto_line c = None \<and> \<not> returning c \<and> \<not> halted c
           \<and> globals c = or_globals g (globals rt) h
           \<and> run_file (run n ld) ld f g (rt, h) =
                (case run n ld (c, h) of
                   Done (c', h') \<Rightarrow> Done (rt, h')
                 | Raised e (c', h') \<Rightarrow> Raised e (rt, h')
                 | OutOfFuel \<Rightarrow> OutOfFuel)))
   \<and> (\<forall>prog rt' h'. ld f = Module prog \<and> run_file (run n ld) ld f None (rt, h) = Done (rt', h') \<longrightarrow>
         (\<exists>c c'. Runtime_init prog (Some (globals rt)) h = (c, h)
           \<and> run n ld (c, h) = Done (c', h') \<and> globals c' = globals rt'))
   \<and> (\<forall>rt2 h2. \<not> halted rt \<and> line_idx rt < length (lines rt)
          \<and> map_of (program rt) (lines rt ! line_idx rt) = Some (Act (RunFile f g) Stop)
          \<and> call_step (run n ld) ld (rt, h) = Done (rt2, h2) \<longrightarrow>
          stack rt2 = stack rt \<and> line_idx rt2 = line_idx rt \<and> \<not> halted rt2
          \<and> loop_body (run n ld) ld (rt, h) =
               (if line_idx rt + 1 < length (lines rt)
                then Continue (rt2\<lparr>line_idx := line_idx rt + 1\<rparr>, h2)
                else Break (rt2, h2)))"
proof (intro conjI)
  show "\<forall>rt' h'. run_file (run n ld) ld f g (rt, h) = Done (rt', h') \<longrightarrow> rt' = rt"
    using run_file_parent by blast
  show "\<forall>e rt' h'. run_file (run n ld) ld f g (rt, h) = Raised e (rt', h') \<longrightarrow> rt' = rt"
    using run_file_parent by blast
  show "\<forall>prog. ld f = Module prog \<longrightarrow>
         (\<exists>c. Runtime_init prog (Some (or_globals g (globals rt) h)) h = (c, h)
           \<and> program c = prog \<and> lines c = sorted_keys prog \<and> line_idx c = 0 \<and> stack c = []
           \<and> goto_line c = None \<and> \<not> returning c \<and> \<not> halted c
           \<and> globals c = or_globals g (globals rt) h
           \<and> run_file (run n ld) ld f g (rt, h) =
                (case run n ld (c, h) of
                   Done (c', h') \<Rightarrow> Done (rt, h')
                 | Raised e (c', h') \<Rightarrow> Raised e (rt, h')
                 | OutOfFuel \<Rightarrow> OutOfFuel))"
    using run_file_child by blast
  show "\<forall>prog rt' h'. ld f = Module prog \<and> run_file (run n ld) ld f None (rt, h) = Done (rt', h') \<longrightarrow>
         (\<exists>c c'. Runtime_init prog (Some (globals rt)) h = (c, h)
           \<and> run n ld (c, h) = Done (c', h') \<and> globals c' = globals rt')"
    using run_file_shares_store by blast
  show "\<forall>rt2 h2. \<not> halted rt \<and> line_idx rt < length (lines rt)
          \<and> map_of (program rt) (lines rt ! line_idx rt) = Some (Act (RunFile f g) Stop)
          \<and> call_step (run n ld) ld (rt, h) = Done (rt2, h2) \<longrightarrow>
          stack rt2 = stack rt \<and> line_idx rt2 = line_idx rt \<and> \<not> halted rt2
          \<and> loop_body (run n ld) ld (rt, h) =
               (if line_idx rt + 1 < length (lines rt)
                then Continue (rt2\<lparr>line_idx := line_idx rt + 1\<rparr>, h2)
                else Break (rt2, h2))"
    using run_file_step_resumes[of rt f g "run n ld" ld h] by blast
qed

text \<open>
  The parent of \<^verbatim>\<open>test_nested_run_file\<close>, sharing its store: the key written by the
  child is in the store of the parent at the end, and after line 10 the parent goes on at
  position 1.
\<close>

theorem nested_run_is_local_witness:
  "store_of 0 (run 5 one_file (Runtime_init prog_parent_shared (Some 0) heap0))
     = Some [(''msg'', StrV ''hello from subprog''), (''done'', BoolV True)]
   \<and> (\<exists>rt2 h2. call_step (run 4 one_file) one_file (engine_at prog_parent_shared 0, heap0)
                  = Done (rt2, h2)
          \<and> stack rt2 = [] \<and> line_idx rt2 = 0 \<and> \<not> halted rt2
          \<and> loop_body (run 4 one_file) one_file (engine_at prog_parent_shared 0, heap0)
               = Continue (rt2\<lparr>line_idx := 1\<rparr>, h2))"
proof -
  let ?rt = "engine_at prog_parent_shared 0"
  note f = engine_at_fields keys_prog_parent
  have s: "store_of 0 (run 5 one_file (Runtime_init prog_parent_shared (Some 0) heap0))
     = Some [(''msg'', StrV ''hello from subprog''), (''done'', BoolV True)]"
    by code_simp
  have "visited_of (call_step (run 4 one_file) one_file (?rt, heap0)) = Some [10]"
    by code_simp
  then obtain rt2 h2 where
    cs: "call_step (run 4 one_file) one_file (?rt, heap0) = Done (rt2, h2)"
    by (cases "call_step (run 4 one_file) one_file (?rt, heap0)") (auto simp: visited_of_def)
  have m: "map_of prog_parent_shared 10 = Some (Act (RunFile ''subprog.py'' None) Stop)"
    by (simp add: prog_parent_shared_def)
  have pre: "\<not> halted ?rt \<and> line_idx ?rt < length (lines ?rt)
      \<and> map_of (program ?rt) (lines ?rt ! line_idx ?rt)
          = Some (Act (RunFile ''subprog.py'' None) Stop)"
    by (simp add: f m)
  from nested_run_is_local[of 4 one_file "''subprog.py''" None ?rt heap0] pre cs
  have "stack rt2 = stack ?rt \<and> line_idx rt2 = line_idx ?rt \<and> \<not> halted rt2
          \<and> loop_body (run 4 one_file) one_file (?rt, heap0) =
               (if line_idx ?rt + 1 < length (lines ?rt)
                then Continue (rt2\<lparr>line_idx := line_idx ?rt + 1\<rparr>, h2)
                else Break (rt2, h2))"
    by blast
  then have "stack rt2 = [] \<and> line_idx rt2 = 0 \<and> \<not> halted rt2
          \<and> loop_body (run 4 one_file) one_file (?rt, heap0) = Continue (rt2\<lparr>line_idx := 1\<rparr>, h2)"
    by (simp add: f)
  with s cs show ?thesis by blast
qed

subsection \<open>C9: the second check of the run loop is dead\<close>

text \<open>
  Claim C9: after any step the engine is not in the state on which the branch
  \<^verbatim>\<open>elif self._returning:\<close> is entered (not halted, no jump target, returning), so the
  loop without that branch computes the same result as the loop of the module, for every
  program, every state and every amount of fuel.
\<close>

theorem second_check_is_dead:
  "(\<forall>rt2 h2. call_step sub ld s = Done (rt2, h2) \<longrightarrow>
       \<not> (\<not> halted rt2 \<and> goto_line rt2 = None \<and> returning rt2))
   \<and> run_loop_without_branch n ld s = run_loop n ld s"
  using call_step_signals[of sub ld s]
  by (simp add: run_loop_without_branch_eq signals_ok_def)

text \<open>
  After the return at line 60 of \<open>prog_gosub\<close> the jump target is set; the loop without
  the branch visits the lines in the order of \<^verbatim>\<open>test_gosub_return\<close>.
\<close>

theorem second_check_is_dead_witness:
  "(\<exists>rt2 h2. call_step (run 1 no_files) no_files
                ((engine_at prog_gosub 4)\<lparr>stack := [Some 30]\<rparr>, heap0) = Done (rt2, h2)
             \<and> returning rt2 \<and> \<not> halted rt2 \<and> goto_line rt2 \<noteq> None)
   \<and> visited_of (run_loop_without_branch 7 no_files (engine_at prog_gosub 0, heap0))
       = Some [10, 20, 50, 60, 30]"
proof -
  let ?s = "((engine_at prog_gosub 4)\<lparr>stack := [Some 30]\<rparr>, heap0)"
  note f = engine_at_fields keys_prog_gosub
  have m: "map_of prog_gosub 60 = Some (Act Return Stop)" by (simp add: prog_gosub_def)
  obtain rt2 h2 where
    cs: "call_step (run 1 no_files) no_files ?s = Done (rt2, h2)"
    and st: "returning rt2" "\<not> halted rt2"
    by (simp add: call_step_def f m exec_op_def return_sub_def with_heap_def)
  from second_check_is_dead[of "run 1 no_files" no_files ?s 0] cs st
  have g: "goto_line rt2 \<noteq> None" by auto
  have "visited_of (run_loop 7 no_files (engine_at prog_gosub 0, heap0))
          = Some [10, 20, 50, 60, 30]"
    by code_simp
  with second_check_is_dead[of "run 1 no_files" no_files "(engine_at prog_gosub 0, heap0)" 7]
  have v: "visited_of (run_loop_without_branch 7 no_files (engine_at prog_gosub 0, heap0))
       = Some [10, 20, 50, 60, 30]"
    by simp
  from cs st g v show ?thesis by blast
qed

subsection \<open>C10: the stack and the jump target hold lines of the program\<close>

text \<open>
  Claim C10: a new engine satisfies \<open>engine_inv\<close> (the line table is the sorted key list,
  every return address on the stack and the pending jump target are the sentinel, none, or
  a line of the program); every step keeps it; after a step the lookup of the jump target
  in the line table does not fail; and a run of a new engine never raises the error of a
  failed lookup, neither in the line table nor in the program, at any depth of nesting.
\<close>

theorem lookups_never_fail:
  "engine_inv (fst (Runtime_init prog g h))
   \<and> (\<forall>rt h1 stmt rt' h'.
        engine_inv rt \<and> exec_step (run n ld) ld stmt (rt, h1) = Done (rt', h') \<longrightarrow> engine_inv rt')
   \<and> (\<forall>rt h1 rt2 h2.
        engine_inv rt \<and> call_step (run n ld) ld (rt, h1) = Done (rt2, h2) \<longrightarrow>
          engine_inv rt2 \<and> (\<forall>e rt3. resolve rt2 \<noteq> Fault e rt3))
   \<and> (\<forall>e s'. run n ld (Runtime_init prog g h) = Raised e s' \<longrightarrow> \<not> lookup_error e)
   \<and> (\<forall>rt' h'. run n ld (Runtime_init prog g h) = Done (rt', h') \<longrightarrow> engine_inv rt')"
proof (intro conjI allI impI)
  show "engine_inv (fst (Runtime_init prog g h))" by (rule engine_inv_init)
next
  fix rt h1 stmt rt' h'
  assume "engine_inv rt \<and> exec_step (run n ld) ld stmt (rt, h1) = Done (rt', h')"
  then show "engine_inv rt'" by (auto dest: exec_step_inv)
next
  fix rt h1 rt2 h2
  assume a: "engine_inv rt \<and> call_step (run n ld) ld (rt, h1) = Done (rt2, h2)"
  then show "engine_inv rt2" by (auto dest: call_step_inv)
next
  fix rt h1 rt2 h2 e rt3
  assume a: "engine_inv rt \<and> call_step (run n ld) ld (rt, h1) = Done (rt2, h2)"
  then have "engine_inv rt2" by (auto dest: call_step_inv)
  from resolve_cases[OF this] show "resolve rt2 \<noteq> Fault e rt3" by auto
next
  fix e s'
  assume r: "run n ld (Runtime_init prog g h) = Raised e s'"
  have "engine_inv (fst ((fst (Runtime_init prog g h))\<lparr>line_idx := 0\<rparr>, snd (Runtime_init prog g h)))"
    by (simp add: engine_inv_init)
  from run_loop_safe[OF this, of n ld] r show "\<not> lookup_error e" by (simp add: run_def)
next
  fix rt' h'
  assume r: "run n ld (Runtime_init prog g h) = Done (rt', h')"
  have "engine_inv (fst ((fst (Runtime_init prog g h))\<lparr>line_idx := 0\<rparr>, snd (Runtime_init prog g h)))"
    by (simp add: engine_inv_init)
  from run_loop_safe[OF this, of n ld] r show "engine_inv rt'" by (simp add: run_def)
qed

text \<open>The run of \<open>prog_gosub\<close> ends, in a state that satisfies the invariant.\<close>

theorem lookups_never_fail_witness:
  "\<exists>rt' h'. run 7 no_files (Runtime_init prog_gosub (Some 0) heap0) = Done (rt', h')
            \<and> engine_inv rt'"
proof -
  have "visited_of (run 7 no_files (Runtime_init prog_gosub (Some 0) heap0))
          = Some [10, 20, 50, 60, 30]"
    by code_simp
  then obtain rt' h' where
    r: "run 7 no_files (Runtime_init prog_gosub (Some 0) heap0) = Done (rt', h')"
    by (cases "run 7 no_files (Runtime_init prog_gosub (Some 0) heap0)")
       (auto simp: visited_of_def)
  with lookups_never_fail[of prog_gosub "Some 0" heap0 7 no_files]
  have "engine_inv rt'" by blast
  with r show ?thesis by blast
qed

end
